theory Spec2Isabelle
  imports Main "HOL-Library.Char_ord" "HOL-Library.List_Lexorder"
begin

section \<open>Strings\<close>

text \<open>
  A Python \<open>str\<close> is modelled as a \<open>string\<close> holding its UTF-8 bytes. The operations
  used by the script (\<open>join\<close>, \<open>replace\<close> and \<open>split\<close> on ASCII patterns, comparison)
  act the same on bytes as on code points; \<open>lower\<close> is modelled on the ASCII letters and
  leaves every other byte as it is.
\<close>

definition nl :: string where
  "nl = [CHR 0x0A]"

text \<open>\<open>sep.join(xs)\<close>\<close>

fun join :: "string \<Rightarrow> string list \<Rightarrow> string" where
  "join sep [] = []"
| "join sep [x] = x"
| "join sep (x # y # ys) = x @ sep @ join sep (y # ys)"

text \<open>\<open>str(n)\<close> of a Python integer: decimal digits, with a minus sign when negative.\<close>

function digits :: "nat \<Rightarrow> string" where
  "digits n = (if n < 10 then [char_of (48 + n)] else digits (n div 10) @ [char_of (48 + n mod 10)])"
  by pat_completeness auto
termination
  by (relation "measure (\<lambda>n. n)") auto

declare digits.simps [simp del]

definition str_int :: "int \<Rightarrow> string" where
  "str_int i = (if i < 0 then CHR ''-'' # digits (nat (- i)) else digits (nat i))"

text \<open>\<open>str(v)\<close> of a value that is a string or \<open>None\<close>, as an f-string formats it.\<close>

definition str_opt :: "string option \<Rightarrow> string" where
  "str_opt v = (case v of None \<Rightarrow> ''None'' | Some s \<Rightarrow> s)"

text \<open>Truthiness of a value that is a string or \<open>None\<close>.\<close>

definition truthy :: "string option \<Rightarrow> bool" where
  "truthy v = (case v of None \<Rightarrow> False | Some s \<Rightarrow> s \<noteq> [])"

section \<open>Data model\<close>

text \<open>
  A member of a JSON object that the script reads with \<open>d.get(key, default)\<close>: the key may
  be missing, may hold \<open>null\<close>, or may hold a value.
\<close>

datatype 'a field = Missing | Null | Val 'a

text \<open>\<open>d.get(key, default)\<close>: the result is a value or \<open>None\<close>.\<close>

definition dict_get :: "'a field \<Rightarrow> 'a \<Rightarrow> 'a option" where
  "dict_get f d = (case f of Missing \<Rightarrow> Some d | Null \<Rightarrow> None | Val v \<Rightarrow> Some v)"

text \<open>
  One starred repository as the hosting API returns it. \<open>full_name\<close> and \<open>html_url\<close> are
  only ever read by subscript and are members of every item. \<open>description\<close> and
  \<open>language\<close> are read with \<open>get\<close> and are nullable; \<open>topics\<close> and \<open>stargazers_count\<close>
  are read with \<open>get\<close> too (\<open>None\<close> here is a missing key), and \<open>stargazers_count\<close> is
  also read by subscript in \<open>process_new_stars\<close>, where a missing key raises.
\<close>

record repo =
  full_name :: string
  html_url :: string
  repo_description :: "string field"
  topics :: "string list option"
  repo_language :: "string field"
  stargazers_count :: "int option"

text \<open>One cache entry: the dictionary \<open>categorize_with_llm\<close> returns.\<close>

record entry =
  category :: string
  description :: string
  url :: string
  stars :: int
  language :: "string field"
  processed_at :: string

text \<open>The optional catalog file: a dictionary that may have a \<open>categories\<close> list.\<close>

record cat =
  cat_name :: string
  cat_description :: "string option"

record catalog =
  categories :: "cat list option"

text \<open>The exceptions of the script that reach the caller.\<close>

datatype error = KeyError | IndexError | ValueError string | SystemExit | OtherError string

section \<open>Classifier\<close>

text \<open>
  The remote call and the JSON decoder are library code. \<open>messages_create prompt\<close> stands
  for \<open>self.anthropic.messages.create(...).content[0].text.strip()\<close>: the text of the
  exception it raised, or the stripped reply. \<open>json_loads\<close> stands for \<open>json.loads\<close>:
  the text of the exception, or the decoded value. A decoded value is an object, of which
  only the string members \<open>category\<close> and \<open>description\<close> are read, or anything else, on
  which the subscript \<open>result["category"]\<close> raises.
\<close>

datatype decoded = NonObject | Object "string option" "string option"

record services =
  messages_create :: "string \<Rightarrow> string + string"
  json_loads :: "string \<Rightarrow> string + decoded"

definition category_details :: "cat list \<Rightarrow> string list" where
  "category_details cs =
     map (\<lambda>c. ''- '' @ cat_name c @ '': '' @ (case cat_description c of None \<Rightarrow> [] | Some d \<Rightarrow> d)) cs"

definition build_prompt ::
  "string \<Rightarrow> string option \<Rightarrow> string \<Rightarrow> string option \<Rightarrow> int \<Rightarrow> catalog option \<Rightarrow> string" where
  \<open>build_prompt repo_name descr tps lang strs predefined_categories =
     (case (case predefined_categories of None \<Rightarrow> None | Some p \<Rightarrow> categories p) of
        Some cs \<Rightarrow>
          join nl
           [''Analyze this GitHub repository and categorize it.'',
            '''',
            ''Repository Information:'',
            ''- Name: '' @ repo_name,
            ''- Description: '' @ str_opt descr,
            ''- Topics: '' @ tps,
            ''- Language: '' @ str_opt lang,
            ''- Stars: '' @ str_int strs,
            '''',
            ''IMPORTANT: You MUST choose EXACTLY ONE category from this list. Do NOT create new categories.'',
            '''',
            ''Available Categories:'',
            join nl (category_details cs),
            '''',
            ''Your tasks:'',
            ''1. Select the MOST appropriate category from the list above (use exact category name)'',
            ''2. Write a concise 1-2 sentence description explaining what the repository does and why it'' @ [CHR 0x27] @ ''s useful'',
            '''',
            ''Respond ONLY with valid JSON in this exact format:'',
            ''{"category": "Category Name", "description": "Your concise description here."}'',
            '''',
            ''Remember: Use the EXACT category name from the list above.'']
      | None \<Rightarrow>
          join nl
           [''Analyze this GitHub repository and provide:'',
            ''1. A category name (e.g., "Web Development", "Machine Learning", "DevOps", etc.)'',
            ''2. A concise 1-2 sentence description that explains what the repository does and why it'' @ [CHR 0x27] @ ''s useful'',
            '''',
            ''Repository: '' @ repo_name,
            ''Description: '' @ str_opt descr,
            ''Topics: '' @ tps,
            ''Language: '' @ str_opt lang,
            ''Stars: '' @ str_int strs,
            '''',
            ''Respond ONLY with valid JSON in this exact format:'',
            ''{"category": "Category Name", "description": "Your concise description here."}''])\<close>

text \<open>The dictionary of the \<open>except\<close> branch.\<close>

definition fallback :: "string \<Rightarrow> repo \<Rightarrow> string option \<Rightarrow> string option \<Rightarrow> int \<Rightarrow> entry" where
  "fallback now r descr lang strs =
     \<lparr> category = (if truthy lang then the lang else ''Other''),
       description = (if truthy descr then the descr else ''Interesting repository''),
       url = html_url r,
       stars = strs,
       language = (case lang of None \<Rightarrow> Null | Some l \<Rightarrow> Val l),
       processed_at = now \<rparr>"

text \<open>
  \<open>categorize_with_llm\<close>. \<open>now\<close> is \<open>datetime.utcnow().isoformat()\<close> at the time of the
  call. The message printed in the \<open>except\<close> branch is not modelled.
\<close>

definition categorize_with_llm :: "services \<Rightarrow> string \<Rightarrow> repo \<Rightarrow> catalog option \<Rightarrow> entry" where
  "categorize_with_llm sv now r predefined_categories =
     (let repo_name = full_name r;
          descr = dict_get (repo_description r) ''No description provided'';
          tps = join '', '' (case topics r of None \<Rightarrow> [] | Some ts \<Rightarrow> ts);
          lang = dict_get (repo_language r) ''Unknown'';
          strs = (case stargazers_count r of None \<Rightarrow> 0 | Some n \<Rightarrow> n);
          prompt = build_prompt repo_name descr tps lang strs predefined_categories
      in case messages_create sv prompt of
           Inl e \<Rightarrow> fallback now r descr lang strs
         | Inr response_text \<Rightarrow>
             (case json_loads sv response_text of
                Inl e \<Rightarrow> fallback now r descr lang strs
              | Inr NonObject \<Rightarrow> fallback now r descr lang strs
              | Inr (Object None _) \<Rightarrow> fallback now r descr lang strs
              | Inr (Object (Some c) None) \<Rightarrow> fallback now r descr lang strs
              | Inr (Object (Some c) (Some d)) \<Rightarrow>
                  \<lparr> category = c,
                    description = d,
                    url = html_url r,
                    stars = strs,
                    language = (case lang of None \<Rightarrow> Null | Some l \<Rightarrow> Val l),
                    processed_at = now \<rparr>))"



section \<open>Reconciler\<close>

text \<open>The generator's settings: \<open>self.dry_run\<close> and \<open>self.limit\<close>.\<close>

record generator =
  dry_run :: bool
  limit :: "int option"

text \<open>
  The cache is a Python dictionary, which keeps its keys in insertion order: an
  association list. The key of a new entry goes to the end; an assignment to a member of
  an existing entry leaves the order as it is.
\<close>

type_synonym cache = "(string \<times> entry) list"

text \<open>\<open>cache[k]["stars"] = n\<close>\<close>

definition set_stars :: "string \<Rightarrow> int \<Rightarrow> cache \<Rightarrow> cache" where
  "set_stars k n c = map (\<lambda>(k', e). if k' = k then (k', e\<lparr>stars := n\<rparr>) else (k', e)) c"

text \<open>
  The local variables of \<open>process_new_stars\<close>, with the cache it mutates.
  \<open>classified\<close> is not a variable of the source: it records the \<open>full_name\<close> of every
  item passed to \<open>categorize_with_llm\<close>, in call order.
\<close>

record progress =
  cache :: cache
  new_count :: nat
  updated_count :: nat
  processed_new :: nat
  classified :: "string list"

text \<open>\<open>self.dry_run and self.limit\<close>: 0 and \<open>None\<close> are falsy.\<close>

definition limited :: "generator \<Rightarrow> bool" where
  "limited g = (dry_run g \<and> (case limit g of None \<Rightarrow> False | Some l \<Rightarrow> l \<noteq> 0))"

text \<open>\<open>self.dry_run and self.limit and processed_new >= self.limit\<close>\<close>

definition limit_hit :: "generator \<Rightarrow> nat \<Rightarrow> bool" where
  "limit_hit g p = (limited g \<and> (case limit g of None \<Rightarrow> False | Some l \<Rightarrow> l \<le> int p))"

text \<open>
  One iteration of the loop. \<open>clock i\<close> is \<open>datetime.utcnow().isoformat()\<close> as the
  classification numbered \<open>i\<close> of this run reads it (counting from 0).
\<close>

definition step ::
  "generator \<Rightarrow> services \<Rightarrow> (nat \<Rightarrow> string) \<Rightarrow> catalog option \<Rightarrow> progress \<Rightarrow> repo \<Rightarrow> error + progress" where
  "step g sv clock pc st r =
     (let repo_full_name = full_name r in
      case map_of (cache st) repo_full_name of
        Some e \<Rightarrow>
          (case stargazers_count r of
             None \<Rightarrow> Inl KeyError
           | Some n \<Rightarrow>
               if stars e \<noteq> n
               then Inr (st\<lparr>cache := set_stars repo_full_name n (cache st),
                           updated_count := updated_count st + 1\<rparr>)
               else Inr st)
      | None \<Rightarrow>
          if limit_hit g (processed_new st)
          then Inr (st\<lparr>new_count := new_count st + 1\<rparr>)
          else Inr (st\<lparr>cache := cache st @
                               [(repo_full_name,
                                 categorize_with_llm sv (clock (processed_new st)) r pc)],
                      new_count := new_count st + 1,
                      processed_new := processed_new st + 1,
                      classified := classified st @ [repo_full_name]\<rparr>))"

fun loop ::
  "generator \<Rightarrow> services \<Rightarrow> (nat \<Rightarrow> string) \<Rightarrow> catalog option \<Rightarrow> repo list \<Rightarrow> progress \<Rightarrow> error + progress" where
  "loop g sv clock pc [] st = Inr st"
| "loop g sv clock pc (r # rs) st =
     (case step g sv clock pc st r of
        Inl e \<Rightarrow> Inl e
      | Inr st' \<Rightarrow> loop g sv clock pc rs st')"

text \<open>
  \<open>process_new_stars\<close>: the cache it returns, with the final values of its counters. An
  exception ends the run; the cache is then not saved.
\<close>

definition process_new_stars ::
  "generator \<Rightarrow> services \<Rightarrow> (nat \<Rightarrow> string) \<Rightarrow> repo list \<Rightarrow> cache \<Rightarrow> catalog option \<Rightarrow> error + progress" where
  "process_new_stars g sv clock strs c pc =
     loop g sv clock pc strs
       \<lparr>cache = c, new_count = 0, updated_count = 0, processed_new = 0, classified = []\<rparr>"

text \<open>What \<open>process_new_stars\<close> prints after the loop, one string for each \<open>print\<close>.\<close>

definition report :: "generator \<Rightarrow> progress \<Rightarrow> string list" where
  "report g st =
     (if limited g \<and> new_count st > processed_new st
      then [nl @ ''[DRY RUN] Processed '' @ str_int (int (processed_new st)) @ '' of '' @
              str_int (int (new_count st)) @ '' new stars (limit: '' @
              str_int (the (limit g)) @ '')'',
            ''[DRY RUN] '' @ str_int (int (new_count st) - int (processed_new st)) @
              '' new stars were skipped due to limit'']
      else [nl @ ''Processed '' @ str_int (int (new_count st)) @ '' new stars, updated '' @
              str_int (int (updated_count st)) @ '' existing stars''])"

text \<open>The keys of a cache, in order.\<close>

abbreviation keys :: "cache \<Rightarrow> string list" where
  "keys c \<equiv> map fst c"

text \<open>
  The star count a cached entry ends with after the items \<open>rs\<close> have been reconciled:
  that of the last fetched item with its identifier, or the stored one.
\<close>

fun refreshed :: "repo list \<Rightarrow> string \<Rightarrow> int \<Rightarrow> int" where
  "refreshed [] k s = s"
| "refreshed (r # rs) k s =
     refreshed rs k (if full_name r = k then (case stargazers_count r of None \<Rightarrow> s | Some n \<Rightarrow> n) else s)"

text \<open>
  The life of a cache: a sequence of runs, each reconciling the cache the run before it
  returned. The result is the last cache, with the identifiers passed to the classifier
  over all the runs, in call order.
\<close>

record run =
  run_generator :: generator
  run_services :: services
  run_clock :: "nat \<Rightarrow> string"
  run_stars :: "repo list"
  run_categories :: "catalog option"

fun lifetime :: "run list \<Rightarrow> cache \<Rightarrow> error + (cache \<times> string list)" where
  "lifetime [] c = Inr (c, [])"
| "lifetime (x # xs) c =
     (case process_new_stars (run_generator x) (run_services x) (run_clock x) (run_stars x) c
             (run_categories x) of
        Inl e \<Rightarrow> Inl e
      | Inr res \<Rightarrow>
          (case lifetime xs (cache res) of
             Inl e \<Rightarrow> Inl e
           | Inr (c', tr) \<Rightarrow> Inr (c', classified res @ tr)))"

text \<open>Sample inputs: an item, a remote service that fails and one that answers.\<close>

abbreviation sample_repo :: "string \<Rightarrow> int \<Rightarrow> repo" where
  "sample_repo name n \<equiv>
     \<lparr>full_name = name, html_url = ''https://github.com/'' @ name, repo_description = Null,
      topics = Some [''cli''], repo_language = Val ''Go'', stargazers_count = Some n\<rparr>"

abbreviation failing_services :: services where
  "failing_services \<equiv>
     \<lparr>messages_create = (\<lambda>p. Inl ''connection error''),
      json_loads = (\<lambda>t. Inl ''Expecting value'')\<rparr>"

abbreviation answering_services :: services where
  "answering_services \<equiv>
     \<lparr>messages_create = (\<lambda>p. Inr ''reply''),
      json_loads = (\<lambda>t. Inr (Object (Some ''Tools'') (Some ''A tool.'')))\<rparr>"

abbreviation sample_entry :: "string \<Rightarrow> int \<Rightarrow> entry" where
  "sample_entry c n \<equiv>
     \<lparr>category = c, description = ''A tool.'', url = ''https://example.org'', stars = n,
      language = Val ''Go'', processed_at = ''2024-01-01T00:00:00''\<rparr>"

section \<open>Classifier: the fallback\<close>





section \<open>Reconciler: the loop\<close>

lemma keys_set_stars [simp]: "keys (set_stars k n c) = keys c"
  by (induction c) (auto simp: set_stars_def)

lemma map_of_set_stars:
  "map_of (set_stars k n c) k' =
     (if k' = k then map_option (\<lambda>e. e\<lparr>stars := n\<rparr>) (map_of c k') else map_of c k')"
  by (induction c) (auto simp: set_stars_def)

lemma map_of_None_keys: "map_of c k = None \<longleftrightarrow> k \<notin> set (keys c)"
  by (simp add: map_of_eq_None_iff)

lemma step_cases:
  assumes "step g sv clock pc st r = Inr st'"
  obtains
    (refresh) e n where "map_of (cache st) (full_name r) = Some e" "stargazers_count r = Some n"
        "st' = (if stars e \<noteq> n
                then st\<lparr>cache := set_stars (full_name r) n (cache st),
                        updated_count := updated_count st + 1\<rparr>
                else st)"
  | (skip) "map_of (cache st) (full_name r) = None" "limit_hit g (processed_new st)"
        "st' = st\<lparr>new_count := new_count st + 1\<rparr>"
  | (classify) "map_of (cache st) (full_name r) = None" "\<not> limit_hit g (processed_new st)"
        "st' = st\<lparr>cache := cache st @
                        [(full_name r, categorize_with_llm sv (clock (processed_new st)) r pc)],
                      new_count := new_count st + 1,
                      processed_new := processed_new st + 1,
                      classified := classified st @ [full_name r]\<rparr>"
  using assms by (auto simp: step_def Let_def split: option.splits if_splits)

lemma stars_categorize:
  "stars (categorize_with_llm sv now r pc) = (case stargazers_count r of None \<Rightarrow> 0 | Some n \<Rightarrow> n)"
  by (simp add: categorize_with_llm_def fallback_def Let_def
           split: sum.splits decoded.splits option.splits)

lemma loop_Cons_Inr:
  "loop g sv clock pc (r # rs) st = Inr st' \<longleftrightarrow>
     (\<exists>st1. step g sv clock pc st r = Inr st1 \<and> loop g sv clock pc rs st1 = Inr st')"
  by (simp split: sum.splits)

lemma loop_struct:
  "loop g sv clock pc rs st = Inr st' \<Longrightarrow>
   \<exists>ns. keys (cache st') = keys (cache st) @ ns \<and> classified st' = classified st @ ns \<and>
        distinct ns \<and> set ns \<inter> set (keys (cache st)) = {} \<and> set ns \<subseteq> full_name ` set rs"
proof (induction rs arbitrary: st)
  case Nil
  then show ?case by simp
next
  case (Cons r rs)
  from Cons.prems(1) obtain st1 where s: "step g sv clock pc st r = Inr st1"
    and l: "loop g sv clock pc rs st1 = Inr st'"
    unfolding loop_Cons_Inr by blast
  from Cons.IH [OF l] obtain ns where ns: "keys (cache st') = keys (cache st1) @ ns"
    "classified st' = classified st1 @ ns" "distinct ns"
    "set ns \<inter> set (keys (cache st1)) = {}" "set ns \<subseteq> full_name ` set rs"
    by blast
  from s show ?case
  proof (cases rule: step_cases)
    case (refresh e n)
    then have "keys (cache st1) = keys (cache st)" "classified st1 = classified st"
      by (auto split: if_splits)
    with ns show ?thesis by auto
  next
    case skip
    then have "keys (cache st1) = keys (cache st)" "classified st1 = classified st"
      by auto
    with ns show ?thesis by auto
  next
    case classify
    then have k: "keys (cache st1) = keys (cache st) @ [full_name r]"
      "classified st1 = classified st @ [full_name r]"
      "full_name r \<notin> set (keys (cache st))"
      by (auto simp: map_of_None_keys)
    show ?thesis
      using ns k by (intro exI [of _ "full_name r # ns"]) auto
  qed
qed

lemma loop_entry:
  "loop g sv clock pc rs st = Inr st' \<Longrightarrow> map_of (cache st) k = Some e \<Longrightarrow>
   map_of (cache st') k = Some (e\<lparr>stars := refreshed rs k (stars e)\<rparr>)"
proof (induction rs arbitrary: st e)
  case Nil
  then show ?case by simp
next
  case (Cons r rs)
  from Cons.prems(1) obtain st1 where s: "step g sv clock pc st r = Inr st1"
    and l: "loop g sv clock pc rs st1 = Inr st'"
    unfolding loop_Cons_Inr by blast
  from s show ?case
  proof (cases rule: step_cases)
    case (refresh e' n)
    show ?thesis
    proof (cases "full_name r = k")
      case True
      with refresh Cons.prems have e': "e' = e" by simp
      have "map_of (cache st1) k = Some (e\<lparr>stars := n\<rparr>)"
        using refresh True e' Cons.prems(2) by (auto simp: map_of_set_stars)
      from Cons.IH [OF l this] show ?thesis
        using True refresh by simp
    next
      case False
      have "map_of (cache st1) k = Some e"
        using refresh False Cons.prems(2) by (auto simp: map_of_set_stars)
      from Cons.IH [OF l this] show ?thesis
        using False by simp
    qed
  next
    case skip
    then have "full_name r \<noteq> k" "map_of (cache st1) k = Some e"
      using Cons.prems(2) by auto
    with Cons.IH [OF l] show ?thesis by simp
  next
    case classify
    then have "full_name r \<noteq> k" "map_of (cache st1) k = Some e"
      using Cons.prems(2) by auto
    with Cons.IH [OF l] show ?thesis by simp
  qed
qed

lemma loop_total:
  "\<forall>r\<in>set rs. stargazers_count r \<noteq> None \<Longrightarrow> \<exists>st'. loop g sv clock pc rs st = Inr st'"
proof (induction rs arbitrary: st)
  case Nil
  then show ?case by simp
next
  case (Cons r rs)
  then obtain n where "stargazers_count r = Some n" by auto
  then have "\<exists>st1. step g sv clock pc st r = Inr st1"
    by (simp add: step_def Let_def split: option.splits)
  then obtain st1 where "step g sv clock pc st r = Inr st1" ..
  with Cons show ?case by simp
qed

lemma fst_set_set_stars [simp]: "fst ` set (set_stars k n c) = fst ` set c"
  using keys_set_stars [of k n c] by (metis set_map)

lemma map_of_Some_key: "map_of c k = Some e \<Longrightarrow> k \<in> fst ` set c"
  by (metis map_of_eq_None_iff option.distinct(1))

lemma limit_hit_unlimited [simp]: "\<not> limited g \<Longrightarrow> \<not> limit_hit g p"
  by (simp add: limit_hit_def)

lemma loop_keys_mono:
  "loop g sv clock pc rs st = Inr st' \<Longrightarrow> set (keys (cache st)) \<subseteq> set (keys (cache st'))"
proof -
  assume "loop g sv clock pc rs st = Inr st'"
  from loop_struct [OF this] obtain ns where "keys (cache st') = keys (cache st) @ ns" by blast
  then have "set (keys (cache st')) = set (keys (cache st)) \<union> set ns"
    by (simp only: set_append)
  then show ?thesis by blast
qed

lemma loop_unlimited:
  "\<not> limited g \<Longrightarrow> loop g sv clock pc rs st = Inr st' \<Longrightarrow>
   full_name ` set rs \<subseteq> set (keys (cache st')) \<and>
   new_count st' + processed_new st = processed_new st' + new_count st"
proof (induction rs arbitrary: st)
  case Nil
  then show ?case by simp
next
  case (Cons r rs)
  from Cons.prems(2) obtain st1 where s: "step g sv clock pc st r = Inr st1"
    and l: "loop g sv clock pc rs st1 = Inr st'"
    unfolding loop_Cons_Inr by blast
  note ih = Cons.IH [OF Cons.prems(1) l]
  note mono = loop_keys_mono [OF l]
  from s show ?case
  proof (cases rule: step_cases)
    case (refresh e n)
    then have "full_name r \<in> set (keys (cache st1))"
      "new_count st1 = new_count st" "processed_new st1 = processed_new st"
      by (auto split: if_splits dest: map_of_Some_key)
    with ih mono show ?thesis by auto
  next
    case skip
    with Cons.prems(1) show ?thesis by simp
  next
    case classify
    then have "full_name r \<in> set (keys (cache st1))"
      "new_count st1 = new_count st + 1" "processed_new st1 = processed_new st + 1"
      by auto
    with ih mono show ?thesis by auto
  qed
qed

lemma loop_settled:
  "\<not> limited g \<Longrightarrow> loop g sv clock pc rs st = Inr st' \<Longrightarrow>
   map_of (cache st') k = Some e \<Longrightarrow> refreshed rs k (stars e) = stars e"
proof (induction rs arbitrary: st)
  case Nil
  then show ?case by simp
next
  case (Cons r rs)
  from Cons.prems(2) obtain st1 where s: "step g sv clock pc st r = Inr st1"
    and l: "loop g sv clock pc rs st1 = Inr st'"
    unfolding loop_Cons_Inr by blast
  note ih = Cons.IH [OF Cons.prems(1) l Cons.prems(3)]
  show ?case
  proof (cases "full_name r = k \<and> stargazers_count r \<noteq> None")
    case False
    with ih show ?thesis by (auto split: option.splits)
  next
    case True
    then obtain n where n: "full_name r = k" "stargazers_count r = Some n" by auto
    have "\<exists>e1. map_of (cache st1) k = Some e1 \<and> stars e1 = n"
      using s
    proof (cases rule: step_cases)
      case (refresh e' m)
      with n show ?thesis by (auto simp: map_of_set_stars)
    next
      case skip
      with Cons.prems(1) show ?thesis by simp
    next
      case classify
      with n show ?thesis by (simp add: stars_categorize map_add_def)
    qed
    then obtain e1 where e1: "map_of (cache st1) k = Some e1" "stars e1 = n" by blast
    from loop_entry [OF l e1(1)] Cons.prems(3) e1(2)
    have "stars e = refreshed rs k n" by auto
    with n show ?thesis by simp
  qed
qed

lemma assoc_eqI:
  "keys xs = keys ys \<Longrightarrow> distinct (keys xs) \<Longrightarrow> map_of xs = map_of ys \<Longrightarrow> xs = ys"
proof (induction xs arbitrary: ys)
  case Nil
  then show ?case by simp
next
  case (Cons x xs)
  then obtain y ys' where ys: "ys = y # ys'" by (cases ys) auto
  with Cons.prems have k: "fst x = fst y" "keys xs = keys ys'" "fst x \<notin> set (keys xs)"
    "distinct (keys xs)" by auto
  from fun_cong [OF Cons.prems(3) [unfolded ys], of "fst x"] k(1)
  have xy: "x = y" by (cases x, cases y) auto
  have "map_of xs = map_of ys'"
  proof
    fix a
    show "map_of xs a = map_of ys' a"
    proof (cases "a = fst x")
      case True
      from k(2,3) have "fst x \<notin> set (keys ys')" by simp
      with k(3) True have "map_of xs a = None" "map_of ys' a = None"
        by (metis map_of_None_keys)+
      then show ?thesis by simp
    next
      case False
      from fun_cong [OF Cons.prems(3) [unfolded ys], of a] False xy
      show ?thesis by (cases x) auto
    qed
  qed
  with Cons.IH k xy ys show ?case by simp
qed

lemma loop_known:
  assumes "loop g sv clock pc rs st = Inr st'"
    and "full_name ` set rs \<subseteq> set (keys (cache st))"
  shows "keys (cache st') = keys (cache st)" "classified st' = classified st"
proof -
  from loop_struct [OF assms(1)] obtain ns where ns: "keys (cache st') = keys (cache st) @ ns"
    "classified st' = classified st @ ns" "set ns \<inter> set (keys (cache st)) = {}"
    "set ns \<subseteq> full_name ` set rs" by blast
  with assms(2) have "ns = []" by (cases ns) auto
  with ns show "keys (cache st') = keys (cache st)" "classified st' = classified st" by auto
qed

lemma loop_known_counts:
  "loop g sv clock pc rs st = Inr st' \<Longrightarrow> full_name ` set rs \<subseteq> set (keys (cache st)) \<Longrightarrow>
   new_count st' = new_count st \<and> processed_new st' = processed_new st"
proof (induction rs arbitrary: st)
  case Nil
  then show ?case by simp
next
  case (Cons r rs)
  from Cons.prems(1) obtain st1 where s: "step g sv clock pc st r = Inr st1"
    and l: "loop g sv clock pc rs st1 = Inr st'"
    unfolding loop_Cons_Inr by blast
  from Cons.prems(2) have "map_of (cache st) (full_name r) \<noteq> None"
    by (simp add: map_of_None_keys)
  with s have "keys (cache st1) = keys (cache st) \<and> new_count st1 = new_count st \<and>
      processed_new st1 = processed_new st"
    by (cases rule: step_cases) (auto split: if_splits)
  with Cons.IH [OF l] Cons.prems(2) show ?case by simp
qed

lemma loop_idempotent:
  assumes nl: "\<not> limited g1"
    and d: "distinct (keys (cache st))"
    and r1: "loop g1 sv1 clock1 pc1 rs st = Inr st1"
    and r2: "loop g2 sv2 clock2 pc2 rs st2 = Inr st2'"
    and c: "cache st2 = cache st1"
  shows "cache st2' = cache st1"
proof -
  from loop_unlimited [OF nl r1] have sub: "full_name ` set rs \<subseteq> set (keys (cache st2))"
    using c by simp
  from loop_struct [OF r1] d have d1: "distinct (keys (cache st1))"
    by (metis distinct_append inf_commute)
  have k: "keys (cache st2') = keys (cache st1)"
    using loop_known(1) [OF r2 sub] c by simp
  have "map_of (cache st2') = map_of (cache st1)"
  proof
    fix a
    show "map_of (cache st2') a = map_of (cache st1) a"
    proof (cases "map_of (cache st1) a")
      case None
      with k have "map_of (cache st2') a = None" by (metis map_of_None_keys)
      with None show ?thesis by simp
    next
      case (Some e)
      from loop_settled [OF nl r1 Some] have "refreshed rs a (stars e) = stars e" .
      with loop_entry [OF r2, of a e] Some c show ?thesis by simp
    qed
  qed
  with k d1 show ?thesis by (intro assoc_eqI) simp_all
qed

lemma limit_hit_iff:
  "limited g \<Longrightarrow> limit g = Some l \<Longrightarrow> limit_hit g p \<longleftrightarrow> nat l - p = 0"
  by (auto simp: limit_hit_def limited_def)

lemma loop_limited:
  "limited g \<Longrightarrow> limit g = Some l \<Longrightarrow> loop g sv clock pc rs st = Inr st' \<Longrightarrow>
   distinct (map full_name (filter (\<lambda>r. full_name r \<notin> set (keys (cache st))) rs)) \<Longrightarrow>
   keys (cache st') = keys (cache st) @
       map full_name (take (nat l - processed_new st)
         (filter (\<lambda>r. full_name r \<notin> set (keys (cache st))) rs)) \<and>
   classified st' = classified st @
       map full_name (take (nat l - processed_new st)
         (filter (\<lambda>r. full_name r \<notin> set (keys (cache st))) rs)) \<and>
   new_count st' = new_count st +
       length (filter (\<lambda>r. full_name r \<notin> set (keys (cache st))) rs) \<and>
   processed_new st' = processed_new st +
       min (nat l - processed_new st)
         (length (filter (\<lambda>r. full_name r \<notin> set (keys (cache st))) rs))"
proof (induction rs arbitrary: st)
  case Nil
  then show ?case by simp
next
  case (Cons r rs)
  from Cons.prems(3) obtain st1 where s: "step g sv clock pc st r = Inr st1"
    and l: "loop g sv clock pc rs st1 = Inr st'"
    unfolding loop_Cons_Inr by blast
  let ?new = "\<lambda>c. filter (\<lambda>r. full_name r \<notin> set (keys c)) rs"
  from s show ?case
  proof (cases rule: step_cases)
    case (refresh e n)
    then have in_c: "full_name r \<in> set (keys (cache st))"
      by (metis map_of_None_keys option.distinct(1))
    from refresh have same: "keys (cache st1) = keys (cache st)" "classified st1 = classified st"
      "new_count st1 = new_count st" "processed_new st1 = processed_new st"
      by (auto split: if_splits)
    from Cons.prems(4) in_c same(1)
    have "distinct (map full_name (?new (cache st1)))" by simp
    from Cons.IH [OF Cons.prems(1,2) l this] in_c same show ?thesis by simp
  next
    case skip
    then have out: "full_name r \<notin> set (keys (cache st))"
      by (metis map_of_None_keys)
    from skip Cons.prems(1,2) have z: "nat l - processed_new st = 0"
      by (simp add: limit_hit_iff)
    from skip have same: "cache st1 = cache st" "classified st1 = classified st"
      "new_count st1 = new_count st + 1" "processed_new st1 = processed_new st"
      by auto
    from Cons.prems(4) out same(1)
    have "distinct (map full_name (?new (cache st1)))" by simp
    from Cons.IH [OF Cons.prems(1,2) l this] out same z show ?thesis by simp
  next
    case classify
    then have out: "full_name r \<notin> set (keys (cache st))"
      by (metis map_of_None_keys)
    from classify Cons.prems(1,2) have pos: "nat l - processed_new st \<noteq> 0"
      by (simp add: limit_hit_iff)
    then obtain m where m: "nat l - processed_new st = Suc m" "nat l - (processed_new st + 1) = m"
      by (cases "nat l - processed_new st") auto
    from classify have upd: "keys (cache st1) = keys (cache st) @ [full_name r]"
      "classified st1 = classified st @ [full_name r]"
      "new_count st1 = new_count st + 1" "processed_new st1 = processed_new st + 1"
      by auto
    from Cons.prems(4) out
    have d: "full_name r \<notin> full_name ` set (?new (cache st))"
      "distinct (map full_name (?new (cache st)))"
      by auto
    have eq: "?new (cache st1) = ?new (cache st)"
    proof (rule filter_cong [OF refl])
      fix x assume "x \<in> set rs"
      with d(1) out show "(full_name x \<notin> set (keys (cache st1))) = (full_name x \<notin> set (keys (cache st)))"
        unfolding upd(1) by (force simp: image_iff)
    qed
    with d(2) have "distinct (map full_name (?new (cache st1)))" by simp
    from Cons.IH [OF Cons.prems(1,2) l this]
    have "keys (cache st') = keys (cache st1) @
         map full_name (take (nat l - processed_new st1) (?new (cache st))) \<and>
       classified st' = classified st1 @
         map full_name (take (nat l - processed_new st1) (?new (cache st))) \<and>
       new_count st' = new_count st1 + length (?new (cache st)) \<and>
       processed_new st' = processed_new st1 +
         min (nat l - processed_new st1) (length (?new (cache st)))"
      unfolding eq .
    with upd m out show ?thesis by simp
  qed
qed

lemma loop_noop:
  "\<forall>r\<in>set rs. \<exists>e. map_of (cache st) (full_name r) = Some e \<and> stargazers_count r = Some (stars e) \<Longrightarrow>
   loop g sv clock pc rs st = Inr st"
  by (induction rs) (auto simp: step_def)

lemma refreshed_absent: "k \<notin> full_name ` set rs \<Longrightarrow> refreshed rs k s = s"
  by (induction rs arbitrary: s) auto

lemma refreshed_distinct:
  "distinct (map full_name rs) \<Longrightarrow> r \<in> set rs \<Longrightarrow> stargazers_count r = Some n \<Longrightarrow>
   refreshed rs (full_name r) s = n"
  by (induction rs arbitrary: s) (auto simp: refreshed_absent)

lemma step_keys_mono:
  "step g sv clock pc st r = Inr st1 \<Longrightarrow> set (keys (cache st)) \<subseteq> set (keys (cache st1))"
  using loop_keys_mono [of g sv clock pc "[r]" st st1] by (simp split: sum.splits)

lemma loop_cached_count:
  "loop g sv clock pc rs st = Inr st' \<Longrightarrow> r \<in> set rs \<Longrightarrow>
   full_name r \<in> set (keys (cache st)) \<Longrightarrow> stargazers_count r \<noteq> None"
proof (induction rs arbitrary: st)
  case Nil
  then show ?case by simp
next
  case (Cons a rs)
  from Cons.prems(1) obtain st1 where s: "step g sv clock pc st a = Inr st1"
    and l: "loop g sv clock pc rs st1 = Inr st'"
    unfolding loop_Cons_Inr by blast
  show ?case
  proof (cases "r = a")
    case True
    from Cons.prems(3) have "map_of (cache st) (full_name r) \<noteq> None"
      by (metis map_of_None_keys)
    with s True show ?thesis
      by (auto simp: step_def Let_def split: option.splits)
  next
    case False
    with Cons.prems(2) have "r \<in> set rs" by simp
    moreover from step_keys_mono [OF s] Cons.prems(3)
    have "full_name r \<in> set (keys (cache st1))" by blast
    ultimately show ?thesis using Cons.IH [OF l] by blast
  qed
qed

lemma refreshed_same:
  "\<forall>y\<in>set rs. full_name y = k \<longrightarrow> stargazers_count y = Some n \<Longrightarrow> refreshed rs k n = n"
  by (induction rs) auto

lemma refreshed_const:
  "r \<in> set rs \<Longrightarrow> full_name r = k \<Longrightarrow> stargazers_count r = Some n \<Longrightarrow>
   \<forall>y\<in>set rs. full_name y = k \<longrightarrow> stargazers_count y = Some n \<Longrightarrow> refreshed rs k s = n"
  by (induction rs arbitrary: s) (auto simp: refreshed_same)

lemma step_unlimited:
  "\<not> limited g \<Longrightarrow> \<not> limited g' \<Longrightarrow> step g sv clock pc st r = step g' sv clock pc st r"
  by (simp add: step_def Let_def split: option.splits)

lemma loop_unlimited_eq:
  "\<not> limited g \<Longrightarrow> \<not> limited g' \<Longrightarrow> loop g sv clock pc rs st = loop g' sv clock pc rs st"
  by (induction rs arbitrary: st) (simp_all add: step_unlimited [of g g'] split: sum.splits)

lemma lifetime_trace:
  "lifetime runs c = Inr (c', tr) \<Longrightarrow>
   distinct tr \<and> set tr \<inter> set (keys c) = {} \<and> set (keys c) \<subseteq> set (keys c') \<and>
   set tr \<subseteq> set (keys c')"
proof (induction runs arbitrary: c c' tr)
  case Nil
  then show ?case by simp
next
  case (Cons x xs)
  from Cons.prems obtain res tr' where
    p: "process_new_stars (run_generator x) (run_services x) (run_clock x) (run_stars x) c
          (run_categories x) = Inr res"
    and l: "lifetime xs (cache res) = Inr (c', tr')"
    and tr: "tr = classified res @ tr'"
    by (auto split: sum.splits prod.splits)
  from loop_struct [OF p [unfolded process_new_stars_def]]
  have k: "keys (cache res) = keys c @ classified res" "distinct (classified res)"
    "set (classified res) \<inter> set (keys c) = {}"
    by auto
  from k(1) have ks: "set (keys (cache res)) = set (keys c) \<union> set (classified res)"
    by (metis set_append)
  from Cons.IH [OF l] have ih: "distinct tr'" "set tr' \<inter> set (keys (cache res)) = {}"
    "set (keys (cache res)) \<subseteq> set (keys c')" "set tr' \<subseteq> set (keys c')"
    by auto
  from ih(2) ks have "set tr' \<inter> set (classified res) = {}" "set tr' \<inter> set (keys c) = {}"
    by blast+
  with k(2,3) ih ks tr show ?case
    by (simp only: distinct_append set_append) blast
qed

section \<open>Reconciler: the ceiling\<close>

lemma str_int_small:
  "str_int 0 = ''0''" "str_int 1 = ''1''" "str_int 2 = ''2''" "str_int 3 = ''3''"
  "str_int 4 = ''4''" "str_int 5 = ''5''"
  by code_simp+

text \<open>
  C2. In preview mode with a ceiling of 3, when the fetched list holds five distinct
  identifiers that are absent from the cache (among any number of cached ones), the run
  passes the first three of them, in fetch order, to the classifier and appends exactly
  these to the cache; the other two stay absent from the cache; five items are counted as
  new, three as processed, and the report printed says that 2 new stars were skipped. The
  run returns whenever every fetched item carries a star count.
\<close>

theorem C2_ceiling:
  assumes "dry_run g" and "limit g = Some 3"
    and "distinct (map full_name (filter (\<lambda>r. full_name r \<notin> set (keys c)) strs))"
    and "length (filter (\<lambda>r. full_name r \<notin> set (keys c)) strs) = 5"
  shows "((\<forall>r\<in>set strs. stargazers_count r \<noteq> None) \<longrightarrow>
            (\<exists>res. process_new_stars g sv clock strs c pc = Inr res)) \<and>
         (\<forall>res. process_new_stars g sv clock strs c pc = Inr res \<longrightarrow>
            classified res = map full_name (take 3 (filter (\<lambda>r. full_name r \<notin> set (keys c)) strs)) \<and>
            keys (cache res) = keys c @ classified res \<and>
            (\<forall>r\<in>set (drop 3 (filter (\<lambda>r. full_name r \<notin> set (keys c)) strs)).
                full_name r \<notin> set (keys (cache res))) \<and>
            new_count res = 5 \<and> processed_new res = 3 \<and>
            report g res =
              [nl @ ''[DRY RUN] Processed 3 of 5 new stars (limit: 3)'',
               ''[DRY RUN] 2 new stars were skipped due to limit''])"
proof (intro conjI allI impI)
  assume "\<forall>r\<in>set strs. stargazers_count r \<noteq> None"
  then show "\<exists>res. process_new_stars g sv clock strs c pc = Inr res"
    unfolding process_new_stars_def by (rule loop_total)
next
  fix res
  assume run: "process_new_stars g sv clock strs c pc = Inr res"
  let ?news = "filter (\<lambda>r. full_name r \<notin> set (keys c)) strs"
  from assms(1,2) have lim: "limited g" by (simp add: limited_def)
  from loop_limited [OF lim assms(2) run [unfolded process_new_stars_def]] assms(3,4)
  have r: "keys (cache res) = keys c @ map full_name (take 3 ?news)"
    "classified res = map full_name (take 3 ?news)"
    "new_count res = 5" "processed_new res = 3"
    by simp_all
  show "classified res = map full_name (take 3 ?news)" by (rule r(2))
  show "keys (cache res) = keys c @ classified res" using r(1,2) by simp
  show "new_count res = 5" by (rule r(3))
  show "processed_new res = 3" by (rule r(4))
  show "report g res =
      [nl @ ''[DRY RUN] Processed 3 of 5 new stars (limit: 3)'',
       ''[DRY RUN] 2 new stars were skipped due to limit'']"
    using lim assms(2) r(3,4) by (simp add: report_def str_int_small)
  show "\<forall>r\<in>set (drop 3 ?news). full_name r \<notin> set (keys (cache res))"
  proof
    fix x assume x: "x \<in> set (drop 3 ?news)"
    then have "x \<in> set ?news" by (rule in_set_dropD)
    then have out: "full_name x \<notin> set (keys c)" by simp
    have "distinct (map full_name (take 3 ?news) @ map full_name (drop 3 ?news))"
      using assms(3) by (simp only: map_append [symmetric] append_take_drop_id)
    with x have "full_name x \<notin> set (map full_name (take 3 ?news))"
      by (simp only: distinct_append set_map) blast
    with out show "full_name x \<notin> set (keys (cache res))"
      unfolding r(1) by (simp only: set_append Un_iff) blast
  qed
qed

theorem C2_ceiling_witness:
  "dry_run \<lparr>dry_run = True, limit = Some 3\<rparr> \<and>
   limit \<lparr>dry_run = True, limit = Some 3\<rparr> = Some 3 \<and>
   distinct (map full_name (filter (\<lambda>r. full_name r \<notin> set (keys [(''o/z'', sample_entry ''Tools'' 10)]))
      [sample_repo ''o/a'' 1, sample_repo ''o/z'' 12, sample_repo ''o/b'' 2, sample_repo ''o/c'' 3,
       sample_repo ''o/d'' 4, sample_repo ''o/e'' 5])) \<and>
   length (filter (\<lambda>r. full_name r \<notin> set (keys [(''o/z'', sample_entry ''Tools'' 10)]))
      [sample_repo ''o/a'' 1, sample_repo ''o/z'' 12, sample_repo ''o/b'' 2, sample_repo ''o/c'' 3,
       sample_repo ''o/d'' 4, sample_repo ''o/e'' 5]) = 5 \<and>
   (\<exists>res. process_new_stars \<lparr>dry_run = True, limit = Some 3\<rparr> answering_services
        (\<lambda>i. ''2024-01-01T00:00:00'')
        [sample_repo ''o/a'' 1, sample_repo ''o/z'' 12, sample_repo ''o/b'' 2, sample_repo ''o/c'' 3,
         sample_repo ''o/d'' 4, sample_repo ''o/e'' 5]
        [(''o/z'', sample_entry ''Tools'' 10)] None = Inr res \<and>
      classified res = [''o/a'', ''o/b'', ''o/c''] \<and>
      keys (cache res) = [''o/z'', ''o/a'', ''o/b'', ''o/c''] \<and>
      new_count res = 5 \<and> processed_new res = 3 \<and>
      report \<lparr>dry_run = True, limit = Some 3\<rparr> res =
        [nl @ ''[DRY RUN] Processed 3 of 5 new stars (limit: 3)'',
         ''[DRY RUN] 2 new stars were skipped due to limit''])"
proof -
  let ?g = "\<lparr>dry_run = True, limit = Some 3\<rparr>"
  let ?c = "[(''o/z'', sample_entry ''Tools'' 10)]"
  let ?strs = "[sample_repo ''o/a'' 1, sample_repo ''o/z'' 12, sample_repo ''o/b'' 2,
                sample_repo ''o/c'' 3, sample_repo ''o/d'' 4, sample_repo ''o/e'' 5]"
  let ?run = "process_new_stars ?g answering_services (\<lambda>i. ''2024-01-01T00:00:00'') ?strs ?c None"
  have h1: "dry_run ?g" by simp
  have h2: "limit ?g = Some 3" by simp
  have h3: "distinct (map full_name (filter (\<lambda>r. full_name r \<notin> set (keys ?c)) ?strs))" by simp
  have h4: "length (filter (\<lambda>r. full_name r \<notin> set (keys ?c)) ?strs) = 5" by simp
  have h5: "\<forall>r\<in>set ?strs. stargazers_count r \<noteq> None" by simp
  note inst = C2_ceiling [OF h1 h2 h3 h4, of answering_services "\<lambda>i. ''2024-01-01T00:00:00''" None]
  from inst [THEN conjunct1, THEN mp, OF h5] obtain res where run: "?run = Inr res" ..
  from inst [THEN conjunct2, THEN spec, THEN mp, OF run]
  have "classified res = [''o/a'', ''o/b'', ''o/c''] \<and>
      keys (cache res) = [''o/z'', ''o/a'', ''o/b'', ''o/c''] \<and>
      new_count res = 5 \<and> processed_new res = 3 \<and>
      report ?g res =
        [nl @ ''[DRY RUN] Processed 3 of 5 new stars (limit: 3)'',
         ''[DRY RUN] 2 new stars were skipped due to limit'']"
    by simp
  with run have "\<exists>res. ?run = Inr res \<and>
      classified res = [''o/a'', ''o/b'', ''o/c''] \<and>
      keys (cache res) = [''o/z'', ''o/a'', ''o/b'', ''o/c''] \<and>
      new_count res = 5 \<and> processed_new res = 3 \<and>
      report ?g res =
        [nl @ ''[DRY RUN] Processed 3 of 5 new stars (limit: 3)'',
         ''[DRY RUN] 2 new stars were skipped due to limit'']"
    by (intro exI [of _ res] conjI) simp_all
  with h1 h2 h3 h4 show ?thesis by (intro conjI)
qed

section \<open>Reconciler: a second run, cached entries, no ceiling\<close>

lemma init_simps [simp]:
  "cache \<lparr>cache = c, new_count = 0, updated_count = 0, processed_new = 0, classified = []\<rparr> = c"
  by simp

text \<open>
  C3. After a run without an active ceiling that started from a cache with distinct keys, a
  second run over the same fetched list (whatever its settings, remote service and clock)
  returns the cache unchanged, calls the classifier for nothing and counts nothing as new;
  when the fetched identifiers are distinct it also counts nothing as updated. The second
  run returns whenever every fetched item carries a star count.
\<close>

theorem C3_idempotent:
  assumes nl: "\<not> limited g1" and d: "distinct (keys c)"
    and r1: "process_new_stars g1 sv1 clock1 strs c pc1 = Inr res1"
  shows "((\<forall>r\<in>set strs. stargazers_count r \<noteq> None) \<longrightarrow>
            (\<exists>res2. process_new_stars g2 sv2 clock2 strs (cache res1) pc2 = Inr res2)) \<and>
         (\<forall>res2. process_new_stars g2 sv2 clock2 strs (cache res1) pc2 = Inr res2 \<longrightarrow>
            cache res2 = cache res1 \<and> classified res2 = [] \<and> new_count res2 = 0 \<and>
            (distinct (map full_name strs) \<longrightarrow> updated_count res2 = 0))"
proof (intro conjI allI impI)
  assume "\<forall>r\<in>set strs. stargazers_count r \<noteq> None"
  then show "\<exists>res2. process_new_stars g2 sv2 clock2 strs (cache res1) pc2 = Inr res2"
    unfolding process_new_stars_def by (rule loop_total)
next
  fix res2
  assume r2: "process_new_stars g2 sv2 clock2 strs (cache res1) pc2 = Inr res2"
  let ?i1 = "\<lparr>cache = c, new_count = 0, updated_count = 0, processed_new = 0, classified = []\<rparr>"
  let ?i2 = "\<lparr>cache = cache res1, new_count = 0, updated_count = 0, processed_new = 0,
              classified = []\<rparr>"
  note l1 = r1 [unfolded process_new_stars_def]
  note l2 = r2 [unfolded process_new_stars_def]
  from loop_unlimited [OF nl l1]
  have sub: "full_name ` set strs \<subseteq> set (keys (cache ?i2))" by simp
  show "cache res2 = cache res1"
    by (rule loop_idempotent [OF nl _ l1 l2]) (simp_all add: d)
  from loop_known(2) [OF l2 sub] show "classified res2 = []" by simp
  from loop_known_counts [OF l2 sub] show "new_count res2 = 0" by simp
  show "updated_count res2 = 0" if dn: "distinct (map full_name strs)"
  proof -
    have "\<forall>r\<in>set strs. \<exists>e. map_of (cache ?i2) (full_name r) = Some e \<and>
        stargazers_count r = Some (stars e)"
    proof
      fix r assume r: "r \<in> set strs"
      with sub have k: "full_name r \<in> set (keys (cache ?i2))" by blast
      then obtain e where e: "map_of (cache res1) (full_name r) = Some e"
        by (metis init_simps map_of_None_keys not_Some_eq)
      from loop_cached_count [OF l2 r k] obtain n where n: "stargazers_count r = Some n"
        by blast
      from loop_settled [OF nl l1 e] have "refreshed strs (full_name r) (stars e) = stars e" .
      with refreshed_distinct [OF dn r n] have "stars e = n" by simp
      with e n show "\<exists>e. map_of (cache ?i2) (full_name r) = Some e \<and>
          stargazers_count r = Some (stars e)" by simp
    qed
    from loop_noop [OF this, of g2 sv2 clock2 pc2] l2 have "res2 = ?i2" by simp
    then show ?thesis by simp
  qed
qed

text \<open>
  C4. For an identifier that is in the cache when a run starts and that the fetched list
  shows with one star count, the run leaves the entry as it was except that its stored star
  count is the fetched one: category, description, url, language and timestamp are
  unchanged, and when the counts are equal the entry is unchanged entirely. The run returns
  whenever every fetched item carries a star count.
\<close>

theorem C4_refresh:
  assumes e: "map_of c k = Some e" and r: "r \<in> set strs" and k: "full_name r = k"
    and same: "\<forall>y\<in>set strs. full_name y = k \<longrightarrow> stargazers_count y = stargazers_count r"
  shows "((\<forall>r\<in>set strs. stargazers_count r \<noteq> None) \<longrightarrow>
            (\<exists>res. process_new_stars g sv clock strs c pc = Inr res)) \<and>
         (\<forall>res. process_new_stars g sv clock strs c pc = Inr res \<longrightarrow>
            (\<exists>n. stargazers_count r = Some n \<and>
                 map_of (cache res) k = Some (e\<lparr>stars := n\<rparr>) \<and>
                 (stars e = n \<longrightarrow> map_of (cache res) k = Some e)))"
proof (intro conjI allI impI)
  assume "\<forall>r\<in>set strs. stargazers_count r \<noteq> None"
  then show "\<exists>res. process_new_stars g sv clock strs c pc = Inr res"
    unfolding process_new_stars_def by (rule loop_total)
next
  fix res
  assume run: "process_new_stars g sv clock strs c pc = Inr res"
  note l = run [unfolded process_new_stars_def]
  from e have "k \<in> set (keys c)" by (metis map_of_None_keys option.distinct(1))
  with k have "full_name r \<in> set (keys (cache \<lparr>cache = c, new_count = 0, updated_count = 0,
      processed_new = 0, classified = []\<rparr>))" by simp
  from loop_cached_count [OF l r this] obtain n where n: "stargazers_count r = Some n"
    by blast
  with same have "\<forall>y\<in>set strs. full_name y = k \<longrightarrow> stargazers_count y = Some n" by simp
  from refreshed_const [OF r k n this] have "refreshed strs k (stars e) = n" .
  with loop_entry [OF l, of k e] e have m: "map_of (cache res) k = Some (e\<lparr>stars := n\<rparr>)"
    by simp
  moreover have "map_of (cache res) k = Some e" if "stars e = n"
    using m that by simp
  ultimately show "\<exists>n. stargazers_count r = Some n \<and>
      map_of (cache res) k = Some (e\<lparr>stars := n\<rparr>) \<and>
      (stars e = n \<longrightarrow> map_of (cache res) k = Some e)"
    using n by blast
qed

text \<open>
  C8. A run keeps every identifier of the loaded cache, in place (the keys of the returned
  cache are those of the loaded one followed by the identifiers classified in the run), and
  never passes such an identifier to the classifier; no identifier is classified twice in a
  run. Over any sequence of runs in which each run starts from the cache the run before it
  returned, no identifier is classified twice and none of the first cache is classified.
\<close>

theorem C8_known_kept:
  "(\<forall>res. process_new_stars g sv clock strs c pc = Inr res \<longrightarrow>
      keys (cache res) = keys c @ classified res \<and> distinct (classified res) \<and>
      (\<forall>k\<in>set (keys c). k \<in> set (keys (cache res)) \<and> k \<notin> set (classified res))) \<and>
   (\<forall>c' tr. lifetime runs c = Inr (c', tr) \<longrightarrow>
      distinct tr \<and> (\<forall>k\<in>set (keys c). k \<in> set (keys c') \<and> k \<notin> set tr))"
proof (intro conjI allI impI)
  fix res
  assume run: "process_new_stars g sv clock strs c pc = Inr res"
  from loop_struct [OF run [unfolded process_new_stars_def]]
  have s: "keys (cache res) = keys c @ classified res" "distinct (classified res)"
    "set (classified res) \<inter> set (keys c) = {}"
    by auto
  show "keys (cache res) = keys c @ classified res" by (rule s(1))
  show "distinct (classified res)" by (rule s(2))
  from s(1) have "set (keys (cache res)) = set (keys c) \<union> set (classified res)"
    by (metis set_append)
  with s(3) show "\<forall>k\<in>set (keys c). k \<in> set (keys (cache res)) \<and> k \<notin> set (classified res)"
    by blast
next
  fix c' tr
  assume "lifetime runs c = Inr (c', tr)"
  from lifetime_trace [OF this]
  have t: "distinct tr" "set tr \<inter> set (keys c) = {}" "set (keys c) \<subseteq> set (keys c')"
    by blast+
  show "distinct tr" by (rule t(1))
  from t(2,3) show "\<forall>k\<in>set (keys c). k \<in> set (keys c') \<and> k \<notin> set tr" by blast
qed

text \<open>
  C10. When preview mode is off, or the ceiling is 0, the ceiling has no effect: the run
  does what a run without a ceiling does, every fetched identifier is in the returned
  cache, every fetched identifier that was absent from the loaded cache has been passed to
  the classifier, and no new item is skipped. The run returns whenever every fetched item
  carries a star count.
\<close>

theorem C10_no_ceiling:
  assumes "\<not> dry_run g \<or> limit g = Some 0"
  shows "((\<forall>r\<in>set strs. stargazers_count r \<noteq> None) \<longrightarrow>
            (\<exists>res. process_new_stars g sv clock strs c pc = Inr res)) \<and>
         (\<forall>res. process_new_stars g sv clock strs c pc = Inr res \<longrightarrow>
            (\<forall>r\<in>set strs. full_name r \<in> set (keys (cache res)) \<and>
                (full_name r \<notin> set (keys c) \<longrightarrow> full_name r \<in> set (classified res))) \<and>
            new_count res = processed_new res) \<and>
         process_new_stars g sv clock strs c pc =
           process_new_stars \<lparr>dry_run = False, limit = None\<rparr> sv clock strs c pc"
proof (intro conjI allI impI)
  assume "\<forall>r\<in>set strs. stargazers_count r \<noteq> None"
  then show "\<exists>res. process_new_stars g sv clock strs c pc = Inr res"
    unfolding process_new_stars_def by (rule loop_total)
next
  from assms have nl: "\<not> limited g" by (auto simp: limited_def)
  have "\<not> limited \<lparr>dry_run = False, limit = None\<rparr>" by (simp add: limited_def)
  from loop_unlimited_eq [OF nl this]
  show "process_new_stars g sv clock strs c pc =
      process_new_stars \<lparr>dry_run = False, limit = None\<rparr> sv clock strs c pc"
    by (simp add: process_new_stars_def)
  fix res
  assume run: "process_new_stars g sv clock strs c pc = Inr res"
  note l = run [unfolded process_new_stars_def]
  from loop_unlimited [OF nl l]
  have u: "full_name ` set strs \<subseteq> set (keys (cache res))" "new_count res = processed_new res"
    by simp_all
  show "new_count res = processed_new res" by (rule u(2))
  from loop_struct [OF l] have "keys (cache res) = keys c @ classified res" by auto
  then have "set (keys (cache res)) = set (keys c) \<union> set (classified res)"
    by (metis set_append)
  with u(1) show "\<forall>r\<in>set strs. full_name r \<in> set (keys (cache res)) \<and>
      (full_name r \<notin> set (keys c) \<longrightarrow> full_name r \<in> set (classified res))"
    by blast
qed

lemmas run_simps = process_new_stars_def step_def Let_def limit_hit_def limited_def
  categorize_with_llm_def fallback_def dict_get_def truthy_def set_stars_def

theorem C3_idempotent_witness:
  "\<not> limited \<lparr>dry_run = False, limit = None\<rparr> \<and>
   distinct (keys [(''o/a'', sample_entry ''Tools'' 10)]) \<and>
   process_new_stars \<lparr>dry_run = False, limit = None\<rparr> answering_services
      (\<lambda>i. ''2024-01-01T00:00:00'')
      [sample_repo ''o/a'' 25, sample_repo ''o/b'' 7]
      [(''o/a'', sample_entry ''Tools'' 10)] None =
     Inr \<lparr>cache = [(''o/a'', sample_entry ''Tools'' 25),
                   (''o/b'', \<lparr>category = ''Tools'', description = ''A tool.'',
                      url = ''https://github.com/o/b'', stars = 7, language = Val ''Go'',
                      processed_at = ''2024-01-01T00:00:00''\<rparr>)],
          new_count = 1, updated_count = 1, processed_new = 1, classified = [''o/b'']\<rparr> \<and>
   (\<exists>res2. process_new_stars \<lparr>dry_run = True, limit = Some 1\<rparr> failing_services
        (\<lambda>i. ''2024-02-02T00:00:00'')
        [sample_repo ''o/a'' 25, sample_repo ''o/b'' 7]
        [(''o/a'', sample_entry ''Tools'' 25),
         (''o/b'', \<lparr>category = ''Tools'', description = ''A tool.'',
            url = ''https://github.com/o/b'', stars = 7, language = Val ''Go'',
            processed_at = ''2024-01-01T00:00:00''\<rparr>)] None = Inr res2 \<and>
      cache res2 =
        [(''o/a'', sample_entry ''Tools'' 25),
         (''o/b'', \<lparr>category = ''Tools'', description = ''A tool.'',
            url = ''https://github.com/o/b'', stars = 7, language = Val ''Go'',
            processed_at = ''2024-01-01T00:00:00''\<rparr>)] \<and>
      classified res2 = [] \<and> new_count res2 = 0 \<and> updated_count res2 = 0)"
proof -
  let ?g1 = "\<lparr>dry_run = False, limit = None\<rparr>"
  let ?c = "[(''o/a'', sample_entry ''Tools'' 10)]"
  let ?strs = "[sample_repo ''o/a'' 25, sample_repo ''o/b'' 7]"
  let ?res1 = "\<lparr>cache = [(''o/a'', sample_entry ''Tools'' 25),
                   (''o/b'', \<lparr>category = ''Tools'', description = ''A tool.'',
                      url = ''https://github.com/o/b'', stars = 7, language = Val ''Go'',
                      processed_at = ''2024-01-01T00:00:00''\<rparr>)],
          new_count = 1, updated_count = 1, processed_new = 1, classified = [''o/b'']\<rparr>"
  have h1: "\<not> limited ?g1" by (simp add: limited_def)
  have h2: "distinct (keys ?c)" by simp
  have h3: "process_new_stars ?g1 answering_services (\<lambda>i. ''2024-01-01T00:00:00'') ?strs ?c None
      = Inr ?res1"
    by (simp add: run_simps)
  have h4: "\<forall>r\<in>set ?strs. stargazers_count r \<noteq> None" by simp
  have h5: "distinct (map full_name ?strs)" by simp
  note inst = C3_idempotent [OF h1 h2 h3, of "\<lparr>dry_run = True, limit = Some 1\<rparr>"
      failing_services "\<lambda>i. ''2024-02-02T00:00:00''" None]
  from inst [THEN conjunct1, THEN mp, OF h4] obtain res2 where
    run: "process_new_stars \<lparr>dry_run = True, limit = Some 1\<rparr> failing_services
        (\<lambda>i. ''2024-02-02T00:00:00'') ?strs (cache ?res1) None = Inr res2" ..
  from inst [THEN conjunct2, THEN spec, THEN mp, OF run] h5
  have "cache res2 = cache ?res1 \<and> classified res2 = [] \<and> new_count res2 = 0 \<and>
      updated_count res2 = 0"
    by simp
  with run have "\<exists>res2. process_new_stars \<lparr>dry_run = True, limit = Some 1\<rparr> failing_services
        (\<lambda>i. ''2024-02-02T00:00:00'') ?strs (cache ?res1) None = Inr res2 \<and>
      cache res2 = cache ?res1 \<and> classified res2 = [] \<and> new_count res2 = 0 \<and>
      updated_count res2 = 0"
    by (intro exI [of _ res2] conjI) simp_all
  then have "\<exists>res2. process_new_stars \<lparr>dry_run = True, limit = Some 1\<rparr> failing_services
        (\<lambda>i. ''2024-02-02T00:00:00'') ?strs
        [(''o/a'', sample_entry ''Tools'' 25),
         (''o/b'', \<lparr>category = ''Tools'', description = ''A tool.'',
            url = ''https://github.com/o/b'', stars = 7, language = Val ''Go'',
            processed_at = ''2024-01-01T00:00:00''\<rparr>)] None = Inr res2 \<and>
      cache res2 =
        [(''o/a'', sample_entry ''Tools'' 25),
         (''o/b'', \<lparr>category = ''Tools'', description = ''A tool.'',
            url = ''https://github.com/o/b'', stars = 7, language = Val ''Go'',
            processed_at = ''2024-01-01T00:00:00''\<rparr>)] \<and>
      classified res2 = [] \<and> new_count res2 = 0 \<and> updated_count res2 = 0"
    by simp
  with h1 h2 h3 show ?thesis by (intro conjI)
qed

theorem C4_refresh_witness:
  "map_of [(''o/a'', sample_entry ''Tools'' 10)] ''o/a'' = Some (sample_entry ''Tools'' 10) \<and>
   sample_repo ''o/a'' 25 \<in> set [sample_repo ''o/a'' 25, sample_repo ''o/b'' 7] \<and>
   full_name (sample_repo ''o/a'' 25) = ''o/a'' \<and>
   (\<forall>y\<in>set [sample_repo ''o/a'' 25, sample_repo ''o/b'' 7].
      full_name y = ''o/a'' \<longrightarrow> stargazers_count y = stargazers_count (sample_repo ''o/a'' 25)) \<and>
   (\<exists>res. process_new_stars \<lparr>dry_run = False, limit = None\<rparr> answering_services
        (\<lambda>i. ''2024-01-01T00:00:00'')
        [sample_repo ''o/a'' 25, sample_repo ''o/b'' 7]
        [(''o/a'', sample_entry ''Tools'' 10)] None = Inr res \<and>
      map_of (cache res) ''o/a'' = Some (sample_entry ''Tools'' 25))"
proof -
  let ?c = "[(''o/a'', sample_entry ''Tools'' 10)]"
  let ?strs = "[sample_repo ''o/a'' 25, sample_repo ''o/b'' 7]"
  have h1: "map_of ?c ''o/a'' = Some (sample_entry ''Tools'' 10)" by simp
  have h2: "sample_repo ''o/a'' 25 \<in> set ?strs" by simp
  have h3: "full_name (sample_repo ''o/a'' 25) = ''o/a''" by simp
  have h4: "\<forall>y\<in>set ?strs. full_name y = ''o/a'' \<longrightarrow>
      stargazers_count y = stargazers_count (sample_repo ''o/a'' 25)" by simp
  have h5: "\<forall>r\<in>set ?strs. stargazers_count r \<noteq> None" by simp
  note inst = C4_refresh [OF h1 h2 h3 h4, of "\<lparr>dry_run = False, limit = None\<rparr>"
      answering_services "\<lambda>i. ''2024-01-01T00:00:00''" None]
  from inst [THEN conjunct1, THEN mp, OF h5] obtain res where
    run: "process_new_stars \<lparr>dry_run = False, limit = None\<rparr> answering_services
        (\<lambda>i. ''2024-01-01T00:00:00'') ?strs ?c None = Inr res" ..
  from inst [THEN conjunct2, THEN spec, THEN mp, OF run]
  have "map_of (cache res) ''o/a'' = Some (sample_entry ''Tools'' 25)" by simp
  with run have "\<exists>res. process_new_stars \<lparr>dry_run = False, limit = None\<rparr> answering_services
        (\<lambda>i. ''2024-01-01T00:00:00'') ?strs ?c None = Inr res \<and>
      map_of (cache res) ''o/a'' = Some (sample_entry ''Tools'' 25)"
    by (intro exI [of _ res] conjI)
  with h1 h2 h3 h4 show ?thesis by (intro conjI)
qed

end
